theory Spec2Isabelle
  imports Complex_Main "HOL-Library.Word" "HOL-Library.Multiset"
begin

section \<open>Data model\<close>

text \<open>
  Block-aware text selection of Okular (core/blockselection.cpp).  Coordinates are
  C++ doubles in page-normalized space; they are modelled as reals, so rounding is not
  part of the model.  The reading order is a C++ int, modelled as a 32-bit word read in
  two's complement: comparisons are the signed ones, and \<open>+ 1\<close> wraps at INT_MAX, where
  C++ leaves the result undefined.  A pointer to a block of the list is modelled by the
  block it points to, the null pointer by \<open>None\<close>; the blocks of a page differ in their
  ids.
\<close>

type_synonym int32 = "32 word"

definition INT_MAX :: int32 where
  "INT_MAX = 2147483647"

record NormalizedPoint =
  px :: real
  py :: real

record NormalizedRect =
  left :: real
  top' :: real
  right :: real
  bottom :: real

record LayoutBlock =
  blockId :: string
  page :: int32
  bbox :: NormalizedRect
  blockType :: string
  readingOrder :: int32
  confidence :: real

record TextEntity =
  m_text :: string
  m_area :: NormalizedRect

section \<open>Layout registry\<close>

text \<open>
  Modelled from the spec: NormalizedRect::contains(x, y) (core/area.cpp) is not among the
  sources; section 4.1 says a point is contained iff it lies within the box, boundaries
  inclusive.
\<close>

definition rect_contains :: "NormalizedRect \<Rightarrow> real \<Rightarrow> real \<Rightarrow> bool" where
  "rect_contains r x y \<longleftrightarrow> left r \<le> x \<and> x \<le> right r \<and> top' r \<le> y \<and> y \<le> bottom r"

text \<open>
  Modelled from the spec: NormalizedRect::center() is not among the sources; the centroid
  is the midpoint of the edges, as isEntityInAnyBlock computes it by hand.
\<close>

definition center :: "NormalizedRect \<Rightarrow> NormalizedPoint" where
  "center r = \<lparr>px = (left r + right r) / 2, py = (top' r + bottom r) / 2\<rparr>"

text \<open>
  Modelled from the spec: LayoutBlock::contains(point) (core/textpage.h) is not among the
  sources; section 4.1 gives it as containment in the bounding box, boundaries inclusive.
\<close>

definition containsPoint :: "LayoutBlock \<Rightarrow> NormalizedPoint \<Rightarrow> bool" where
  "containsPoint block p \<longleftrightarrow> rect_contains (bbox block) (px p) (py p)"

text \<open>
  Modelled from the spec: LayoutBlock::contains(rect) (core/textpage.h) is not among the
  sources; section 4.1 gives it as containment of the rectangle's centroid.
\<close>

definition containsRect :: "LayoutBlock \<Rightarrow> NormalizedRect \<Rightarrow> bool" where
  "containsRect block r \<longleftrightarrow> containsPoint block (center r)"

section \<open>Block locator\<close>

definition findBlockContaining :: "LayoutBlock list \<Rightarrow> NormalizedPoint \<Rightarrow> LayoutBlock option" where
  "findBlockContaining blocks p = find (\<lambda>block. containsPoint block p) blocks"

definition getNextBlock :: "LayoutBlock list \<Rightarrow> LayoutBlock option \<Rightarrow> LayoutBlock option" where
  "getNextBlock blocks current =
     (case current of
        None \<Rightarrow> None
      | Some c \<Rightarrow> find (\<lambda>block. readingOrder block = readingOrder c + 1) blocks)"

text \<open>The test of the first loop of findBlockForCursor: the cursor has passed the block.\<close>

definition passed :: "NormalizedPoint \<Rightarrow> LayoutBlock \<Rightarrow> bool" where
  "passed p block \<longleftrightarrow>
     (if py p > bottom (bbox block) then True
      else if py p \<ge> top' (bbox block) \<and> py p \<le> bottom (bbox block) \<and> px p > right (bbox block)
      then True
      else False)"

text \<open>
  The first loop of findBlockForCursor, with its two variables bestBlock and bestOrder as
  the accumulator.
\<close>

fun bestPassedLoop ::
  "NormalizedPoint \<Rightarrow> LayoutBlock list \<Rightarrow> LayoutBlock option \<times> int32 \<Rightarrow> LayoutBlock option \<times> int32"
where
  "bestPassedLoop p [] acc = acc"
| "bestPassedLoop p (block # rest) (bestBlock, bestOrder) =
     (if passed p block \<and> bestOrder <s readingOrder block
      then bestPassedLoop p rest (Some block, readingOrder block)
      else bestPassedLoop p rest (bestBlock, bestOrder))"

text \<open>The second loop, with firstBlock and minOrder as the accumulator.\<close>

fun firstBlockLoop ::
  "LayoutBlock list \<Rightarrow> LayoutBlock option \<times> int32 \<Rightarrow> LayoutBlock option \<times> int32"
where
  "firstBlockLoop [] acc = acc"
| "firstBlockLoop (block # rest) (firstBlock, minOrder) =
     (if 0 \<le>s readingOrder block \<and> readingOrder block <s minOrder
      then firstBlockLoop rest (Some block, readingOrder block)
      else firstBlockLoop rest (firstBlock, minOrder))"

definition findBlockForCursor :: "LayoutBlock list \<Rightarrow> NormalizedPoint \<Rightarrow> LayoutBlock option" where
  "findBlockForCursor blocks p =
     (case findBlockContaining blocks p of
        Some directBlock \<Rightarrow> Some directBlock
      | None \<Rightarrow>
          (case fst (bestPassedLoop p blocks (None, - 1)) of
             Some bestBlock \<Rightarrow>
               (case getNextBlock blocks (Some bestBlock) of
                  Some nextBlock \<Rightarrow> Some nextBlock
                | None \<Rightarrow> Some bestBlock)
           | None \<Rightarrow>
               (if blocks \<noteq> [] then fst (firstBlockLoop blocks (None, INT_MAX)) else None)))"

fun getBlocksInReadingOrderRange :: "LayoutBlock list \<Rightarrow> int32 \<Rightarrow> int32 \<Rightarrow> LayoutBlock list" where
  "getBlocksInReadingOrderRange [] minOrder maxOrder = []"
| "getBlocksInReadingOrderRange (block # rest) minOrder maxOrder =
     (if minOrder \<le>s readingOrder block \<and> readingOrder block \<le>s maxOrder
      then block # getBlocksInReadingOrderRange rest minOrder maxOrder
      else getBlocksInReadingOrderRange rest minOrder maxOrder)"

text \<open>
  isEntityInAnyBlock takes a list of pointers and skips the null ones, hence a list of
  optional blocks.
\<close>

definition isEntityInAnyBlock :: "NormalizedRect \<Rightarrow> LayoutBlock option list \<Rightarrow> bool" where
  "isEntityInAnyBlock entityArea blocks =
     (if blocks = [] then True
      else
        (let cx = (left entityArea + right entityArea) / 2;
             cy = (top' entityArea + bottom entityArea) / 2
         in list_ex (\<lambda>block. case block of None \<Rightarrow> False
                                | Some b \<Rightarrow> rect_contains (bbox b) cx cy) blocks))"

text \<open>
  Modelled from the spec: TextPagePrivate::getPreviousBlock is declared in
  core/textpage_p.h and its body is not among the sources; section 4.2 gives it as the
  block whose readingOrder is the current one's minus one, none if absent, the mirror
  image of getNextBlock.
\<close>

definition getPreviousBlock :: "LayoutBlock list \<Rightarrow> LayoutBlock option \<Rightarrow> LayoutBlock option" where
  "getPreviousBlock blocks current =
     (case current of
        None \<Rightarrow> None
      | Some c \<Rightarrow> find (\<lambda>block. readingOrder block = readingOrder c - 1) blocks)"

section \<open>Reading-order text assembler\<close>

text \<open>
  RegularAreaRect (core/area.h) is not among the sources: a selection area is a list of
  rectangles.
\<close>

type_synonym RegularAreaRect = "NormalizedRect list"

text \<open>
  Modelled from the spec: NormalizedRect::intersects (core/area.h) is not among the
  sources; it is the boundary intersection of section 4.4: the two rectangles share a
  point, edges included.
\<close>

definition rect_intersects :: "NormalizedRect \<Rightarrow> NormalizedRect \<Rightarrow> bool" where
  "rect_intersects a r \<longleftrightarrow>
     left r \<le> right a \<and> right r \<ge> left a \<and> top' r \<le> bottom a \<and> bottom r \<ge> top' a"

text \<open>
  Modelled from the spec: RegularAreaRect::intersects (core/area.h) is not among the
  sources; the area passes the boundary-intersection test of section 4.4 when one of its
  rectangles does.
\<close>

definition area_intersects :: "RegularAreaRect \<Rightarrow> NormalizedRect \<Rightarrow> bool" where
  "area_intersects area r = list_ex (\<lambda>a. rect_intersects a r) area"

text \<open>
  Modelled from the spec: RegularAreaRect::contains(x, y) (core/area.h) is not among the
  sources; the area passes the centre-containment test of section 4.4 when one of its
  rectangles contains the point.
\<close>

definition area_contains :: "RegularAreaRect \<Rightarrow> real \<Rightarrow> real \<Rightarrow> bool" where
  "area_contains area x y = list_ex (\<lambda>a. rect_contains a x y) area"

text \<open>
  QMap<int, QList<const TextEntity *>>: an association list kept in ascending (signed)
  key order, which is the order its iterators walk.  \<open>qmap_append k e m\<close> is
  \<open>m[k].append(e)\<close>: operator[] inserts an empty list under a new key.
\<close>

type_synonym EntityMap = "(int32 \<times> TextEntity list) list"

fun qmap_append :: "int32 \<Rightarrow> TextEntity \<Rightarrow> EntityMap \<Rightarrow> EntityMap" where
  "qmap_append k e [] = [(k, [e])]"
| "qmap_append k e ((k', es) # m) =
     (if k = k' then (k', es @ [e]) # m
      else if k <s k' then (k, [e]) # (k', es) # m
      else (k', es) # qmap_append k e m)"

definition entityMatches :: "RegularAreaRect \<Rightarrow> bool \<Rightarrow> TextEntity \<Rightarrow> bool" where
  "entityMatches area useIntersects it =
     (if useIntersects then area_intersects area (m_area it)
      else (let c = center (m_area it) in area_contains area (px c) (py c)))"

text \<open>The inner loop over the blocks, with its break at the first block that contains.\<close>

definition blockOrderOf :: "LayoutBlock list \<Rightarrow> TextEntity \<Rightarrow> int32" where
  "blockOrderOf blocks it =
     (case find (\<lambda>block. containsRect block (m_area it)) blocks of
        None \<Rightarrow> - 1
      | Some block \<Rightarrow> readingOrder block)"

fun collectEntities ::
  "TextEntity list \<Rightarrow> LayoutBlock list \<Rightarrow> RegularAreaRect \<Rightarrow> bool \<Rightarrow> EntityMap \<Rightarrow> EntityMap"
where
  "collectEntities [] blocks area useIntersects entitiesByBlock = entitiesByBlock"
| "collectEntities (it # rest) blocks area useIntersects entitiesByBlock =
     (if entityMatches area useIntersects it
      then (let blockOrder = blockOrderOf blocks it
            in if 0 \<le>s blockOrder
               then collectEntities rest blocks area useIntersects
                      (qmap_append blockOrder it entitiesByBlock)
               else collectEntities rest blocks area useIntersects
                      (qmap_append 999999 it entitiesByBlock))
      else collectEntities rest blocks area useIntersects entitiesByBlock)"

text \<open>The comparator handed to std::sort.\<close>

definition entityLess :: "TextEntity \<Rightarrow> TextEntity \<Rightarrow> bool" where
  "entityLess a b =
     (let aY = (top' (m_area a) + bottom (m_area a)) / 2;
          bY = (top' (m_area b) + bottom (m_area b)) / 2
      in if \<bar>aY - bY\<bar> > 0.01 then aY < bY else left (m_area a) < left (m_area b))"



text \<open>
  One sort that keeps the promise, used to run the assembler on the examples: the
  insertion sort of libstdc++, which is the whole of its std::sort on ranges of at most 16
  elements.  It takes the elements from left to right; an element the comparator puts
  before the first of the sorted prefix goes to the front, any other moves left past the
  elements the comparator puts it before.  The sorted prefix is kept reversed.
\<close>

definition linear_insert :: "('a \<Rightarrow> 'a \<Rightarrow> bool) \<Rightarrow> 'a list \<Rightarrow> 'a \<Rightarrow> 'a list" where
  "linear_insert cmp racc x =
     (if racc \<noteq> [] \<and> cmp x (last racc) then racc @ [x]
      else takeWhile (cmp x) racc @ x # dropWhile (cmp x) racc)"

definition insertion_sort :: "('a \<Rightarrow> 'a \<Rightarrow> bool) \<Rightarrow> 'a list \<Rightarrow> 'a list" where
  "insertion_sort cmp es = rev (foldl (linear_insert cmp) [] es)"

definition groupText :: "int32 \<times> TextEntity list \<Rightarrow> string" where
  "groupText g = concat (map m_text (snd g))"

definition extractTextInReadingOrder ::
  "((TextEntity \<Rightarrow> TextEntity \<Rightarrow> bool) \<Rightarrow> TextEntity list \<Rightarrow> TextEntity list)
     \<Rightarrow> TextEntity list \<Rightarrow> LayoutBlock list \<Rightarrow> RegularAreaRect \<Rightarrow> bool \<Rightarrow> string"
where
  "extractTextInReadingOrder std_sort words blocks area useIntersects =
     (let entitiesByBlock = collectEntities words blocks area useIntersects [];
          sortedByBlock = map (\<lambda>g. (fst g, std_sort entityLess (snd g))) entitiesByBlock
      in concat (map groupText sortedByBlock))"

text \<open>
  The branch of collectEntities: an entity is filed under its block's reading order when
  that order is not negative, and under 999999 otherwise; \<open>groupKey\<close> is the key it is
  filed under.
\<close>

definition groupKey :: "LayoutBlock list \<Rightarrow> TextEntity \<Rightarrow> int32" where
  "groupKey blocks it =
     (if 0 \<le>s blockOrderOf blocks it then blockOrderOf blocks it else 999999)"

section \<open>Selection resolver\<close>







section \<open>Layouts of the test suite\<close>

abbreviation Point :: "real \<Rightarrow> real \<Rightarrow> NormalizedPoint" where
  "Point x y \<equiv> \<lparr>px = x, py = y\<rparr>"

abbreviation Rect :: "real \<Rightarrow> real \<Rightarrow> real \<Rightarrow> real \<Rightarrow> NormalizedRect" where
  "Rect l t r b \<equiv> \<lparr>left = l, top' = t, right = r, bottom = b\<rparr>"

abbreviation Block :: "string \<Rightarrow> NormalizedRect \<Rightarrow> int32 \<Rightarrow> LayoutBlock" where
  "Block i box ord \<equiv>
     \<lparr>blockId = i, page = 0, bbox = box, blockType = ''TEXT'', readingOrder = ord, confidence = 1\<rparr>"

abbreviation Entity :: "string \<Rightarrow> NormalizedRect \<Rightarrow> TextEntity" where
  "Entity s r \<equiv> \<lparr>m_text = s, m_area = r\<rparr>"





text \<open>testMultipleBlocksOnPage: two columns and a header that is out of the flow.\<close>

definition pageBlocks :: "LayoutBlock list" where
  "pageBlocks =
     [Block ''left_col'' (Rect 0.05 0.1 0.45 0.9) 0,
      Block ''right_col'' (Rect 0.55 0.1 0.95 0.9) 1,
      Block ''header'' (Rect 0.05 0.02 0.95 0.08) (- 1)]"


text \<open>
  testBlockReadingOrder: three blocks registered out of reading order, a fragment in each,
  listed against the reading order, and a fragment outside every block.
\<close>

definition orderBlocks :: "LayoutBlock list" where
  "orderBlocks =
     [Block ''third'' (Rect 0 0.5 0.5 1) 2,
      Block ''first'' (Rect 0 0 0.5 0.5) 0,
      Block ''second'' (Rect 0.5 0 1 0.5) 1]"

definition orderWords :: "TextEntity list" where
  "orderWords =
     [Entity ''Z'' (Rect 0.6 0.6 0.8 0.7),
      Entity ''C'' (Rect 0.1 0.6 0.2 0.7),
      Entity ''A'' (Rect 0.1 0.1 0.2 0.2),
      Entity ''B'' (Rect 0.6 0.1 0.7 0.2)]"

section \<open>Loops of the block locator\<close>

text \<open>
  Signed comparisons are read through \<open>sint\<close>.  The two loops of findBlockForCursor
  either leave their accumulator alone or stop at a block that splits the list: every
  candidate before it is strictly worse, no candidate after it is better.
\<close>

lemmas signed_cmp = word_sle_eq word_sless_alt

lemma firstBlockLoop_keep:
  "\<forall>x\<in>set xs. \<not> (0 \<le>s readingOrder x \<and> readingOrder x <s mo) \<Longrightarrow>
   firstBlockLoop xs (fb, mo) = (fb, mo)"
  by (induction xs) auto

lemma firstBlockLoop_change:
  "\<exists>x\<in>set xs. 0 \<le>s readingOrder x \<and> readingOrder x <s mo \<Longrightarrow>
   \<exists>pre b post. xs = pre @ b # post \<and> 0 \<le>s readingOrder b \<and> readingOrder b <s mo \<and>
     (\<forall>x\<in>set pre. 0 \<le>s readingOrder x \<longrightarrow> readingOrder b <s readingOrder x) \<and>
     (\<forall>x\<in>set post. 0 \<le>s readingOrder x \<longrightarrow> readingOrder b \<le>s readingOrder x) \<and>
     firstBlockLoop xs (fb, mo) = (Some b, readingOrder b)"
proof (induction xs arbitrary: fb mo)
  case Nil
  then show ?case by simp
next
  case (Cons x xs)
  show ?case
  proof (cases "0 \<le>s readingOrder x \<and> readingOrder x <s mo")
    case True
    show ?thesis
    proof (cases "\<exists>y\<in>set xs. 0 \<le>s readingOrder y \<and> readingOrder y <s readingOrder x")
      case later: True
      from Cons.IH [OF later, of "Some x"] obtain pre b post where
        split: "xs = pre @ b # post" and nn: "0 \<le>s readingOrder b"
        and lt: "readingOrder b <s readingOrder x"
        and before: "\<forall>y\<in>set pre. 0 \<le>s readingOrder y \<longrightarrow> readingOrder b <s readingOrder y"
        and after: "\<forall>y\<in>set post. 0 \<le>s readingOrder y \<longrightarrow> readingOrder b \<le>s readingOrder y"
        and res: "firstBlockLoop xs (Some x, readingOrder x) = (Some b, readingOrder b)"
        by blast
      have "x # xs = (x # pre) @ b # post" using split by simp
      moreover have "readingOrder b <s mo" using True lt by (auto simp: signed_cmp)
      moreover have "\<forall>y\<in>set (x # pre). 0 \<le>s readingOrder y \<longrightarrow> readingOrder b <s readingOrder y"
        using before lt by simp
      moreover have "firstBlockLoop (x # xs) (fb, mo) = (Some b, readingOrder b)"
        using True res by simp
      ultimately show ?thesis using nn after by blast
    next
      case nolater: False
      then have keep: "firstBlockLoop xs (Some x, readingOrder x) = (Some x, readingOrder x)"
        by (intro firstBlockLoop_keep) blast
      have "x # xs = [] @ x # xs" by simp
      moreover have "\<forall>y\<in>set xs. 0 \<le>s readingOrder y \<longrightarrow> readingOrder x \<le>s readingOrder y"
        using nolater by (auto simp: signed_cmp)
      moreover have "firstBlockLoop (x # xs) (fb, mo) = (Some x, readingOrder x)"
        using True keep by simp
      ultimately show ?thesis using True by (metis empty_iff list.set(1))
    qed
  next
    case False
    with Cons.prems have later: "\<exists>y\<in>set xs. 0 \<le>s readingOrder y \<and> readingOrder y <s mo" by auto
    from Cons.IH [OF later, of fb] obtain pre b post where
      split: "xs = pre @ b # post" and nn: "0 \<le>s readingOrder b" and lt: "readingOrder b <s mo"
      and before: "\<forall>y\<in>set pre. 0 \<le>s readingOrder y \<longrightarrow> readingOrder b <s readingOrder y"
      and after: "\<forall>y\<in>set post. 0 \<le>s readingOrder y \<longrightarrow> readingOrder b \<le>s readingOrder y"
      and res: "firstBlockLoop xs (fb, mo) = (Some b, readingOrder b)"
      by blast
    have "x # xs = (x # pre) @ b # post" using split by simp
    moreover have "0 \<le>s readingOrder x \<longrightarrow> readingOrder b <s readingOrder x"
      using False lt by (auto simp: signed_cmp)
    then have "\<forall>y\<in>set (x # pre). 0 \<le>s readingOrder y \<longrightarrow> readingOrder b <s readingOrder y"
      using before by simp
    moreover have "firstBlockLoop (x # xs) (fb, mo) = (Some b, readingOrder b)"
      using False res by auto
    ultimately show ?thesis using nn lt after by blast
  qed
qed

lemma bestPassedLoop_keep:
  "\<forall>x\<in>set xs. passed p x \<longrightarrow> \<not> bo <s readingOrder x \<Longrightarrow>
   bestPassedLoop p xs (bb, bo) = (bb, bo)"
  by (induction xs) auto

lemma bestPassedLoop_change:
  "\<exists>x\<in>set xs. passed p x \<and> bo <s readingOrder x \<Longrightarrow>
   \<exists>pre b post. xs = pre @ b # post \<and> passed p b \<and> bo <s readingOrder b \<and>
     (\<forall>x\<in>set pre. passed p x \<longrightarrow> readingOrder x <s readingOrder b) \<and>
     (\<forall>x\<in>set post. passed p x \<longrightarrow> readingOrder x \<le>s readingOrder b) \<and>
     bestPassedLoop p xs (bb, bo) = (Some b, readingOrder b)"
proof (induction xs arbitrary: bb bo)
  case Nil
  then show ?case by simp
next
  case (Cons x xs)
  show ?case
  proof (cases "passed p x \<and> bo <s readingOrder x")
    case True
    show ?thesis
    proof (cases "\<exists>y\<in>set xs. passed p y \<and> readingOrder x <s readingOrder y")
      case later: True
      from Cons.IH [OF later, of "Some x"] obtain pre b post where
        split: "xs = pre @ b # post" and pb: "passed p b" and gt: "readingOrder x <s readingOrder b"
        and before: "\<forall>y\<in>set pre. passed p y \<longrightarrow> readingOrder y <s readingOrder b"
        and after: "\<forall>y\<in>set post. passed p y \<longrightarrow> readingOrder y \<le>s readingOrder b"
        and res: "bestPassedLoop p xs (Some x, readingOrder x) = (Some b, readingOrder b)"
        by blast
      have "x # xs = (x # pre) @ b # post" using split by simp
      moreover have "bo <s readingOrder b" using True gt by (auto simp: word_sless_alt)
      moreover have "\<forall>y\<in>set (x # pre). passed p y \<longrightarrow> readingOrder y <s readingOrder b"
        using before gt by simp
      moreover have "bestPassedLoop p (x # xs) (bb, bo) = (Some b, readingOrder b)"
        using True res by simp
      ultimately show ?thesis using pb after by blast
    next
      case nolater: False
      then have keep: "bestPassedLoop p xs (Some x, readingOrder x) = (Some x, readingOrder x)"
        by (intro bestPassedLoop_keep) blast
      have "x # xs = [] @ x # xs" by simp
      moreover have "\<forall>y\<in>set xs. passed p y \<longrightarrow> readingOrder y \<le>s readingOrder x"
        using nolater by (auto simp: word_sless_alt word_sle_eq)
      moreover have "bestPassedLoop p (x # xs) (bb, bo) = (Some x, readingOrder x)"
        using True keep by simp
      ultimately show ?thesis using True by (metis empty_iff list.set(1))
    qed
  next
    case False
    with Cons.prems have later: "\<exists>y\<in>set xs. passed p y \<and> bo <s readingOrder y" by auto
    from Cons.IH [OF later, of bb] obtain pre b post where
      split: "xs = pre @ b # post" and pb: "passed p b" and gt: "bo <s readingOrder b"
      and before: "\<forall>y\<in>set pre. passed p y \<longrightarrow> readingOrder y <s readingOrder b"
      and after: "\<forall>y\<in>set post. passed p y \<longrightarrow> readingOrder y \<le>s readingOrder b"
      and res: "bestPassedLoop p xs (bb, bo) = (Some b, readingOrder b)"
      by blast
    have "x # xs = (x # pre) @ b # post" using split by simp
    moreover have "passed p x \<longrightarrow> readingOrder x <s readingOrder b"
      using False gt by (auto simp: word_sless_alt)
    then have "\<forall>y\<in>set (x # pre). passed p y \<longrightarrow> readingOrder y <s readingOrder b"
      using before by simp
    moreover have "bestPassedLoop p (x # xs) (bb, bo) = (Some b, readingOrder b)"
      using False res by auto
    ultimately show ?thesis using pb gt after by blast
  qed
qed

lemma find_first_split:
  "\<exists>x\<in>set xs. P x \<Longrightarrow>
   \<exists>pre d post. xs = pre @ d # post \<and> P d \<and> (\<forall>x\<in>set pre. \<not> P x) \<and> find P xs = Some d"
proof (induction xs)
  case Nil
  then show ?case by simp
next
  case (Cons x xs)
  show ?case
  proof (cases "P x")
    case True
    have "x # xs = [] @ x # xs" by simp
    with True show ?thesis by (metis empty_iff list.set(1) find.simps(2))
  next
    case False
    with Cons.prems have "\<exists>y\<in>set xs. P y" by auto
    from Cons.IH [OF this] obtain pre d post where
      "xs = pre @ d # post" "P d" "\<forall>y\<in>set pre. \<not> P y" "find P xs = Some d" by blast
    then have "x # xs = (x # pre) @ d # post \<and> P d \<and> (\<forall>y\<in>set (x # pre). \<not> P y)
      \<and> find P (x # xs) = Some d" using False by simp
    then show ?thesis by blast
  qed
qed

lemma find_None_iff': "find P xs = None \<longleftrightarrow> (\<forall>x\<in>set xs. \<not> P x)"
  by (induction xs) auto

section \<open>The comparator of the assembler\<close>

text \<open>
  The tolerance makes the comparator intransitive: three fragments 0.008 apart, each left
  of the one above it, are ordered in a cycle.  It is no strict weak ordering, which is
  what std::sort asks of its comparator.
\<close>

lemma entityLess_cycle:
  "entityLess (Entity ''c'' (Rect 0.1 0.016 0.2 0.016)) (Entity ''b'' (Rect 0.2 0.008 0.3 0.008))
   \<and> entityLess (Entity ''b'' (Rect 0.2 0.008 0.3 0.008)) (Entity ''a'' (Rect 0.3 0 0.4 0))
   \<and> entityLess (Entity ''a'' (Rect 0.3 0 0.4 0)) (Entity ''c'' (Rect 0.1 0.016 0.2 0.016))"
  by (simp add: entityLess_def Let_def)

section \<open>Empty filter list\<close>

text \<open>
  C10: with an empty list of block pointers isEntityInAnyBlock answers true for every
  entity area: the empty filter includes everything.
\<close>

theorem isEntityInAnyBlock_empty:
  "isEntityInAnyBlock entityArea [] = True"
  by (simp add: isEntityInAnyBlock_def)

section \<open>Centroid rule\<close>

text \<open>
  C7: a rectangle is contained in a block exactly when its centroid lies in the block's
  bounding box, whatever its edges do; isEntityInAnyBlock applied to the one block computes
  the same test.
\<close>

theorem centroid_rule:
  "containsRect block r = rect_contains (bbox block) ((left r + right r) / 2) ((top' r + bottom r) / 2)
   \<and> isEntityInAnyBlock r [Some block] = containsRect block r"
  by (simp add: containsRect_def containsPoint_def center_def isEntityInAnyBlock_def)

text \<open>
  The rectangles of testLayoutBlockContainsRectSpanningBoundary: one reaches out of the
  block and is contained, one overlaps the block and is not.
\<close>

theorem centroid_rule_witness:
  "containsRect (Block ''b'' (Rect 0 0 0.5 1) 0) (Rect 0.3 0.3 0.6 0.7)
   \<and> \<not> rect_contains (Rect 0 0 0.5 1) 0.6 0.3
   \<and> \<not> containsRect (Block ''b'' (Rect 0 0 0.5 1) 0) (Rect 0.4 0.3 0.8 0.7)
   \<and> rect_intersects (Rect 0 0 0.5 1) (Rect 0.4 0.3 0.8 0.7)
   \<and> \<not> isEntityInAnyBlock (Rect 0.4 0.3 0.8 0.7) [Some (Block ''b'' (Rect 0 0 0.5 1) 0)]
   \<and> containsRect (Block ''b'' (Rect 0 0 0.5 1) 0) (Rect 0.4 0.3 0.6 0.7)"
  using centroid_rule [of "Block ''b'' (Rect 0 0 0.5 1) 0" "Rect 0.3 0.3 0.6 0.7"]
    centroid_rule [of "Block ''b'' (Rect 0 0 0.5 1) 0" "Rect 0.4 0.3 0.8 0.7"]
  by (simp add: rect_contains_def rect_intersects_def containsRect_def containsPoint_def center_def)

section \<open>Successor and predecessor\<close>

text \<open>
  C8, amended: for a block b of the list with successor n, getPreviousBlock of n is the
  first block in iteration order whose readingOrder is that of b; it is b itself when no
  other block of the list has b's readingOrder.
\<close>

theorem successor_predecessor:
  assumes "b \<in> set blocks" and "getNextBlock blocks (Some b) = Some n"
  shows "getPreviousBlock blocks (Some n) = find (\<lambda>block. readingOrder block = readingOrder b) blocks
    \<and> ((\<forall>b'\<in>set blocks. readingOrder b' = readingOrder b \<longrightarrow> b' = b) \<longrightarrow>
          getPreviousBlock blocks (Some n) = Some b)"
proof -
  from assms(2) have "find (\<lambda>block. readingOrder block = readingOrder b + 1) blocks = Some n"
    by (simp add: getNextBlock_def)
  then have "readingOrder n = readingOrder b + 1"
    by (auto simp: find_Some_iff)
  then have pred_eq: "readingOrder n - 1 = readingOrder b" by simp
  then have prev_eq: "getPreviousBlock blocks (Some n) =
      find (\<lambda>block. readingOrder block = readingOrder b) blocks"
    by (simp add: getPreviousBlock_def)
  have "\<exists>x\<in>set blocks. readingOrder x = readingOrder b" using assms(1) by blast
  from find_first_split [of blocks "\<lambda>x. readingOrder x = readingOrder b", OF this]
  obtain d where "d \<in> set blocks" "readingOrder d = readingOrder b"
    "find (\<lambda>x. readingOrder x = readingOrder b) blocks = Some d" by auto
  then have "(\<forall>b'\<in>set blocks. readingOrder b' = readingOrder b \<longrightarrow> b' = b) \<longrightarrow>
      find (\<lambda>x. readingOrder x = readingOrder b) blocks = Some b" by auto
  with prev_eq show ?thesis by simp
qed

theorem successor_predecessor_witness:
  "Block ''left_col'' (Rect 0.05 0.1 0.45 0.9) 0 \<in> set pageBlocks
   \<and> getNextBlock pageBlocks (Some (Block ''left_col'' (Rect 0.05 0.1 0.45 0.9) 0))
       = Some (Block ''right_col'' (Rect 0.55 0.1 0.95 0.9) 1)
   \<and> getPreviousBlock pageBlocks (Some (Block ''right_col'' (Rect 0.55 0.1 0.95 0.9) 1))
       = Some (Block ''left_col'' (Rect 0.05 0.1 0.45 0.9) 0)"
proof -
  have m: "Block ''left_col'' (Rect 0.05 0.1 0.45 0.9) 0 \<in> set pageBlocks"
    by (simp add: pageBlocks_def)
  have n: "getNextBlock pageBlocks (Some (Block ''left_col'' (Rect 0.05 0.1 0.45 0.9) 0))
       = Some (Block ''right_col'' (Rect 0.55 0.1 0.95 0.9) 1)"
    by (simp add: pageBlocks_def getNextBlock_def)
  have u: "\<forall>b'\<in>set pageBlocks. readingOrder b' = readingOrder (Block ''left_col'' (Rect 0.05 0.1 0.45 0.9) 0)
      \<longrightarrow> b' = Block ''left_col'' (Rect 0.05 0.1 0.45 0.9) 0"
    by (simp add: pageBlocks_def)
  from successor_predecessor [OF m n] u m n show ?thesis by blast
qed

text \<open>Two blocks share reading order 0: the predecessor of the successor of the second is the first.\<close>

theorem successor_predecessor_counterexample:
  "Block ''b'' (Rect 0 0.5 0.5 1) 0 \<in> set [Block ''a'' (Rect 0 0 0.5 0.5) 0, Block ''b'' (Rect 0 0.5 0.5 1) 0, Block ''n'' (Rect 0.5 0 1 1) 1]
   \<and> getNextBlock [Block ''a'' (Rect 0 0 0.5 0.5) 0, Block ''b'' (Rect 0 0.5 0.5 1) 0, Block ''n'' (Rect 0.5 0 1 1) 1]
        (Some (Block ''b'' (Rect 0 0.5 0.5 1) 0)) = Some (Block ''n'' (Rect 0.5 0 1 1) 1)
   \<and> getPreviousBlock [Block ''a'' (Rect 0 0 0.5 0.5) 0, Block ''b'' (Rect 0 0.5 0.5 1) 0, Block ''n'' (Rect 0.5 0 1 1) 1]
        (Some (Block ''n'' (Rect 0.5 0 1 1) 1)) = Some (Block ''a'' (Rect 0 0 0.5 0.5) 0)
   \<and> Block ''a'' (Rect 0 0 0.5 0.5) 0 \<noteq> Block ''b'' (Rect 0 0.5 0.5 1) 0"
  by (simp add: getNextBlock_def getPreviousBlock_def)

section \<open>Cursor resolution\<close>

text \<open>
  C2, amended: a block is passed exactly when the point is below its bottom, or level with
  it and right of its right edge.  When no block contains the point and some passed block
  has a readingOrder greater than -1, findBlockForCursor keeps the passed block of greatest
  readingOrder among those (the first one on ties) and returns its successor by
  getNextBlock, or the kept block itself when there is no successor.  When some block
  contains the point it returns the first such block in iteration order.
\<close>

theorem findBlockForCursor_dead_space:
  "(passed p block \<longleftrightarrow>
      py p > bottom (bbox block)
      \<or> (top' (bbox block) \<le> py p \<and> py p \<le> bottom (bbox block) \<and> px p > right (bbox block)))
   \<and> (findBlockContaining blocks p = None \<and> (\<exists>x\<in>set blocks. passed p x \<and> - 1 <s readingOrder x) \<longrightarrow>
        (\<exists>pre b post. blocks = pre @ b # post \<and> passed p b \<and> - 1 <s readingOrder b \<and>
           (\<forall>x\<in>set pre. passed p x \<longrightarrow> readingOrder x <s readingOrder b) \<and>
           (\<forall>x\<in>set post. passed p x \<longrightarrow> readingOrder x \<le>s readingOrder b) \<and>
           findBlockForCursor blocks p =
             (case getNextBlock blocks (Some b) of Some n \<Rightarrow> Some n | None \<Rightarrow> Some b)))
   \<and> (findBlockContaining blocks p \<noteq> None \<longrightarrow>
        (\<exists>pre d post. blocks = pre @ d # post \<and> containsPoint d p \<and>
           (\<forall>x\<in>set pre. \<not> containsPoint x p) \<and> findBlockForCursor blocks p = Some d))"
proof -
  have geom: "passed p block \<longleftrightarrow>
      py p > bottom (bbox block)
      \<or> (top' (bbox block) \<le> py p \<and> py p \<le> bottom (bbox block) \<and> px p > right (bbox block))"
    by (simp add: passed_def)
  have dead: "\<exists>pre b post. blocks = pre @ b # post \<and> passed p b \<and> - 1 <s readingOrder b \<and>
           (\<forall>x\<in>set pre. passed p x \<longrightarrow> readingOrder x <s readingOrder b) \<and>
           (\<forall>x\<in>set post. passed p x \<longrightarrow> readingOrder x \<le>s readingOrder b) \<and>
           findBlockForCursor blocks p =
             (case getNextBlock blocks (Some b) of Some n \<Rightarrow> Some n | None \<Rightarrow> Some b)"
    if none: "findBlockContaining blocks p = None"
      and ex: "\<exists>x\<in>set blocks. passed p x \<and> - 1 <s readingOrder x"
  proof -
    from bestPassedLoop_change [OF ex, of None] obtain pre b post where
      split: "blocks = pre @ b # post" and pb: "passed p b" and gt: "- 1 <s readingOrder b"
      and before: "\<forall>x\<in>set pre. passed p x \<longrightarrow> readingOrder x <s readingOrder b"
      and after: "\<forall>x\<in>set post. passed p x \<longrightarrow> readingOrder x \<le>s readingOrder b"
      and res: "bestPassedLoop p blocks (None, - 1) = (Some b, readingOrder b)"
      by blast
    from none res have "findBlockForCursor blocks p =
        (case getNextBlock blocks (Some b) of Some n \<Rightarrow> Some n | None \<Rightarrow> Some b)"
      by (simp add: findBlockForCursor_def)
    with split pb gt before after show ?thesis by blast
  qed
  have direct: "\<exists>pre d post. blocks = pre @ d # post \<and> containsPoint d p \<and>
           (\<forall>x\<in>set pre. \<not> containsPoint x p) \<and> findBlockForCursor blocks p = Some d"
    if some: "findBlockContaining blocks p \<noteq> None"
  proof -
    from some have "\<exists>x\<in>set blocks. containsPoint x p"
      by (simp add: findBlockContaining_def find_None_iff')
    from find_first_split [of blocks "\<lambda>x. containsPoint x p", OF this] obtain pre d post where
      "blocks = pre @ d # post" "containsPoint d p" "\<forall>x\<in>set pre. \<not> containsPoint x p"
      "find (\<lambda>x. containsPoint x p) blocks = Some d" by blast
    moreover from this have "findBlockForCursor blocks p = Some d"
      by (simp add: findBlockForCursor_def findBlockContaining_def)
    ultimately show ?thesis by blast
  qed
  show ?thesis
  proof (intro conjI impI)
    show "passed p block \<longleftrightarrow>
      py p > bottom (bbox block)
      \<or> (top' (bbox block) \<le> py p \<and> py p \<le> bottom (bbox block) \<and> px p > right (bbox block))"
      by (rule geom)
  next
    assume h: "findBlockContaining blocks p = None \<and> (\<exists>x\<in>set blocks. passed p x \<and> - 1 <s readingOrder x)"
    show "\<exists>pre b post. blocks = pre @ b # post \<and> passed p b \<and> - 1 <s readingOrder b \<and>
           (\<forall>x\<in>set pre. passed p x \<longrightarrow> readingOrder x <s readingOrder b) \<and>
           (\<forall>x\<in>set post. passed p x \<longrightarrow> readingOrder x \<le>s readingOrder b) \<and>
           findBlockForCursor blocks p =
             (case getNextBlock blocks (Some b) of Some n \<Rightarrow> Some n | None \<Rightarrow> Some b)"
      by (rule dead) (use h in simp_all)
  next
    assume "findBlockContaining blocks p \<noteq> None"
    then show "\<exists>pre d post. blocks = pre @ d # post \<and> containsPoint d p \<and>
           (\<forall>x\<in>set pre. \<not> containsPoint x p) \<and> findBlockForCursor blocks p = Some d"
      by (rule direct)
  qed
qed

theorem findBlockForCursor_dead_space_witness:
  "findBlockContaining pageBlocks (Point 0.5 0.5) = None
   \<and> (\<exists>x\<in>set pageBlocks. passed (Point 0.5 0.5) x \<and> - 1 <s readingOrder x)
   \<and> findBlockForCursor pageBlocks (Point 0.5 0.5) = Some (Block ''right_col'' (Rect 0.55 0.1 0.95 0.9) 1)"
proof -
  have none: "findBlockContaining pageBlocks (Point 0.5 0.5) = None"
    by (simp add: pageBlocks_def findBlockContaining_def containsPoint_def rect_contains_def)
  have ex: "\<exists>x\<in>set pageBlocks. passed (Point 0.5 0.5) x \<and> - 1 <s readingOrder x"
    by (simp add: pageBlocks_def passed_def signed_cmp)
  from findBlockForCursor_dead_space [of "Point 0.5 0.5" _ pageBlocks] none ex
  obtain pre b post where split: "pageBlocks = pre @ b # post"
    and pb: "passed (Point 0.5 0.5) b" and gt: "- 1 <s readingOrder b"
    and res: "findBlockForCursor pageBlocks (Point 0.5 0.5) =
             (case getNextBlock pageBlocks (Some b) of Some n \<Rightarrow> Some n | None \<Rightarrow> Some b)"
    by blast
  from split have "b \<in> set pageBlocks" by (metis in_set_conv_decomp)
  with pb gt have "b = Block ''left_col'' (Rect 0.05 0.1 0.45 0.9) 0"
    by (auto simp: pageBlocks_def passed_def signed_cmp)
  with res have "findBlockForCursor pageBlocks (Point 0.5 0.5) = Some (Block ''right_col'' (Rect 0.55 0.1 0.95 0.9) 1)"
    by (simp add: pageBlocks_def getNextBlock_def)
  with none ex show ?thesis by blast
qed

text \<open>The only passed block is out of the flow: it is not kept, and nothing is returned.\<close>

theorem findBlockForCursor_dead_space_counterexample:
  "findBlockContaining [Block ''header'' (Rect 0.05 0.02 0.95 0.08) (- 1)] (Point 0.5 0.5) = None
   \<and> passed (Point 0.5 0.5) (Block ''header'' (Rect 0.05 0.02 0.95 0.08) (- 1))
   \<and> getNextBlock [Block ''header'' (Rect 0.05 0.02 0.95 0.08) (- 1)]
        (Some (Block ''header'' (Rect 0.05 0.02 0.95 0.08) (- 1))) = None
   \<and> findBlockForCursor [Block ''header'' (Rect 0.05 0.02 0.95 0.08) (- 1)] (Point 0.5 0.5) = None"
  by (simp add: findBlockContaining_def containsPoint_def rect_contains_def passed_def
      getNextBlock_def findBlockForCursor_def signed_cmp)

text \<open>
  C3, amended: findBlockForCursor returns none on the empty list; it returns a block of
  the list whenever some block contains the point or has a readingOrder from 0 up to, but
  not including, INT_MAX; when no block contains the point and no block of readingOrder
  greater than -1 was passed, it returns the block of smallest non-negative readingOrder
  (the first one on ties); and it returns none on a list whose blocks all have a negative
  readingOrder and do not contain the point.
\<close>

theorem findBlockForCursor_total:
  "findBlockForCursor [] p = None
   \<and> ((\<exists>x\<in>set blocks. containsPoint x p \<or> (0 \<le>s readingOrder x \<and> readingOrder x <s INT_MAX)) \<longrightarrow>
        (\<exists>b. b \<in> set blocks \<and> findBlockForCursor blocks p = Some b))
   \<and> (findBlockContaining blocks p = None
        \<and> \<not> (\<exists>x\<in>set blocks. passed p x \<and> - 1 <s readingOrder x)
        \<and> (\<exists>x\<in>set blocks. 0 \<le>s readingOrder x \<and> readingOrder x <s INT_MAX) \<longrightarrow>
        (\<exists>pre b post. blocks = pre @ b # post \<and> 0 \<le>s readingOrder b \<and>
           (\<forall>x\<in>set pre. 0 \<le>s readingOrder x \<longrightarrow> readingOrder b <s readingOrder x) \<and>
           (\<forall>x\<in>set post. 0 \<le>s readingOrder x \<longrightarrow> readingOrder b \<le>s readingOrder x) \<and>
           findBlockForCursor blocks p = Some b))
   \<and> (findBlockContaining blocks p = None \<and> list_all (\<lambda>x. readingOrder x <s 0) blocks \<longrightarrow>
        findBlockForCursor blocks p = None)"
proof -
  have empty: "findBlockForCursor [] p = None"
    by (simp add: findBlockForCursor_def findBlockContaining_def)
  have nopass: "bestPassedLoop p blocks (None, - 1) = (None, - 1)"
    if "\<not> (\<exists>x\<in>set blocks. passed p x \<and> - 1 <s readingOrder x)"
    using that by (intro bestPassedLoop_keep) blast
  have first: "\<exists>pre b post. blocks = pre @ b # post \<and> 0 \<le>s readingOrder b \<and>
           (\<forall>x\<in>set pre. 0 \<le>s readingOrder x \<longrightarrow> readingOrder b <s readingOrder x) \<and>
           (\<forall>x\<in>set post. 0 \<le>s readingOrder x \<longrightarrow> readingOrder b \<le>s readingOrder x) \<and>
           findBlockForCursor blocks p = Some b"
    if none: "findBlockContaining blocks p = None"
      and np: "\<not> (\<exists>x\<in>set blocks. passed p x \<and> - 1 <s readingOrder x)"
      and ex: "\<exists>x\<in>set blocks. 0 \<le>s readingOrder x \<and> readingOrder x <s INT_MAX"
  proof -
    from firstBlockLoop_change [OF ex, of None] obtain pre b post where
      split: "blocks = pre @ b # post" and nn: "0 \<le>s readingOrder b"
      and before: "\<forall>x\<in>set pre. 0 \<le>s readingOrder x \<longrightarrow> readingOrder b <s readingOrder x"
      and after: "\<forall>x\<in>set post. 0 \<le>s readingOrder x \<longrightarrow> readingOrder b \<le>s readingOrder x"
      and res: "firstBlockLoop blocks (None, INT_MAX) = (Some b, readingOrder b)"
      by blast
    from ex have "blocks \<noteq> []" by auto
    with none nopass [OF np] res have "findBlockForCursor blocks p = Some b"
      by (simp add: findBlockForCursor_def)
    with split nn before after show ?thesis by blast
  qed
  have some: "\<exists>b. b \<in> set blocks \<and> findBlockForCursor blocks p = Some b"
    if ex: "\<exists>x\<in>set blocks. containsPoint x p \<or> (0 \<le>s readingOrder x \<and> readingOrder x <s INT_MAX)"
  proof (cases "findBlockContaining blocks p")
    case (Some d)
    then have "d \<in> set blocks" by (auto simp: findBlockContaining_def find_Some_iff)
    with Some show ?thesis by (simp add: findBlockForCursor_def)
  next
    case None
    then have nocont: "\<forall>x\<in>set blocks. \<not> containsPoint x p"
      by (simp add: findBlockContaining_def find_None_iff')
    show ?thesis
    proof (cases "\<exists>x\<in>set blocks. passed p x \<and> - 1 <s readingOrder x")
      case True
      from bestPassedLoop_change [OF True, of None] obtain pre b post where
        split: "blocks = pre @ b # post"
        and res: "bestPassedLoop p blocks (None, - 1) = (Some b, readingOrder b)" by blast
      have bin: "b \<in> set blocks" using split by simp
      show ?thesis
      proof (cases "getNextBlock blocks (Some b)")
        case nonext: None
        with None res bin show ?thesis by (simp add: findBlockForCursor_def)
      next
        case (Some n)
        then have "n \<in> set blocks" by (auto simp: getNextBlock_def find_Some_iff)
        with None res Some show ?thesis by (simp add: findBlockForCursor_def)
      qed
    next
      case False
      from ex nocont have "\<exists>x\<in>set blocks. 0 \<le>s readingOrder x \<and> readingOrder x <s INT_MAX" by blast
      from first [OF None False this] show ?thesis by auto
    qed
  qed
  have allneg: "findBlockForCursor blocks p = None"
    if none: "findBlockContaining blocks p = None" and neg: "list_all (\<lambda>x. readingOrder x <s 0) blocks"
  proof -
    from neg have a: "\<forall>x\<in>set blocks. \<not> - 1 <s readingOrder x"
      by (auto simp: list_all_iff signed_cmp)
    from neg have b: "\<forall>x\<in>set blocks. \<not> (0 \<le>s readingOrder x \<and> readingOrder x <s INT_MAX)"
      by (auto simp: list_all_iff signed_cmp)
    from a have "bestPassedLoop p blocks (None, - 1) = (None, - 1)"
      by (intro bestPassedLoop_keep) blast
    with none firstBlockLoop_keep [OF b, of None] show ?thesis
      by (simp add: findBlockForCursor_def)
  qed
  show ?thesis
  proof (intro conjI impI)
    show "findBlockForCursor [] p = None" by (rule empty)
  next
    assume "\<exists>x\<in>set blocks. containsPoint x p \<or> (0 \<le>s readingOrder x \<and> readingOrder x <s INT_MAX)"
    then show "\<exists>b. b \<in> set blocks \<and> findBlockForCursor blocks p = Some b" by (rule some)
  next
    assume h: "findBlockContaining blocks p = None
        \<and> \<not> (\<exists>x\<in>set blocks. passed p x \<and> - 1 <s readingOrder x)
        \<and> (\<exists>x\<in>set blocks. 0 \<le>s readingOrder x \<and> readingOrder x <s INT_MAX)"
    show "\<exists>pre b post. blocks = pre @ b # post \<and> 0 \<le>s readingOrder b \<and>
           (\<forall>x\<in>set pre. 0 \<le>s readingOrder x \<longrightarrow> readingOrder b <s readingOrder x) \<and>
           (\<forall>x\<in>set post. 0 \<le>s readingOrder x \<longrightarrow> readingOrder b \<le>s readingOrder x) \<and>
           findBlockForCursor blocks p = Some b"
      by (rule first) (use h in simp_all)
  next
    assume h: "findBlockContaining blocks p = None \<and> list_all (\<lambda>x. readingOrder x <s 0) blocks"
    show "findBlockForCursor blocks p = None"
      by (rule allneg) (use h in simp_all)
  qed
qed

theorem findBlockForCursor_total_witness:
  "findBlockContaining pageBlocks (Point 0.5 0.01) = None
   \<and> \<not> (\<exists>x\<in>set pageBlocks. passed (Point 0.5 0.01) x \<and> - 1 <s readingOrder x)
   \<and> (\<exists>x\<in>set pageBlocks. 0 \<le>s readingOrder x \<and> readingOrder x <s INT_MAX)
   \<and> findBlockForCursor pageBlocks (Point 0.5 0.01) = Some (Block ''left_col'' (Rect 0.05 0.1 0.45 0.9) 0)"
proof -
  have none: "findBlockContaining pageBlocks (Point 0.5 0.01) = None"
    by (simp add: pageBlocks_def findBlockContaining_def containsPoint_def rect_contains_def)
  have np: "\<not> (\<exists>x\<in>set pageBlocks. passed (Point 0.5 0.01) x \<and> - 1 <s readingOrder x)"
    by (simp add: pageBlocks_def passed_def signed_cmp)
  have ex: "\<exists>x\<in>set pageBlocks. 0 \<le>s readingOrder x \<and> readingOrder x <s INT_MAX"
    by (simp add: pageBlocks_def INT_MAX_def signed_cmp)
  from findBlockForCursor_total [of "Point 0.5 0.01" pageBlocks] none np ex
  obtain pre b post where split: "pageBlocks = pre @ b # post" and nn: "0 \<le>s readingOrder b"
    and before: "\<forall>x\<in>set pre. 0 \<le>s readingOrder x \<longrightarrow> readingOrder b <s readingOrder x"
    and res: "findBlockForCursor pageBlocks (Point 0.5 0.01) = Some b"
    by blast
  have "b = Block ''left_col'' (Rect 0.05 0.1 0.45 0.9) 0"
  proof (cases pre)
    case Nil
    with split show ?thesis by (simp add: pageBlocks_def)
  next
    case (Cons x pre')
    with split have "x = Block ''left_col'' (Rect 0.05 0.1 0.45 0.9) 0" by (simp add: pageBlocks_def)
    moreover from Cons before have "0 \<le>s readingOrder x \<longrightarrow> readingOrder b <s readingOrder x" by simp
    ultimately have "readingOrder b <s 0" by (simp add: signed_cmp)
    with nn show ?thesis by (simp add: signed_cmp)
  qed
  with res none np ex show ?thesis by blast
qed

text \<open>A list of one out-of-flow block, and a point above it: non-empty, and none is returned.\<close>

theorem findBlockForCursor_total_counterexample:
  "[Block ''header'' (Rect 0.05 0.02 0.95 0.08) (- 1)] \<noteq> []
   \<and> findBlockForCursor [Block ''header'' (Rect 0.05 0.02 0.95 0.08) (- 1)] (Point 0.5 0.01) = None"
  by (simp add: findBlockContaining_def containsPoint_def rect_contains_def passed_def
      findBlockForCursor_def signed_cmp INT_MAX_def)

section \<open>Out-of-flow blocks\<close>

lemma getBlocksInReadingOrderRange_filter:
  "getBlocksInReadingOrderRange blocks minOrder maxOrder
     = filter (\<lambda>b. minOrder \<le>s readingOrder b \<and> readingOrder b \<le>s maxOrder) blocks"
  by (induction blocks) auto

text \<open>
  C5, amended: getBlocksInReadingOrderRange returns exactly the blocks of the list with
  readingOrder in [minOrder, maxOrder], in registry order, hence no block of readingOrder
  -1 when minOrder is not negative.  getNextBlock returns none for no current block;
  otherwise it returns the first block of the list whose readingOrder is the current one
  plus one, and none when there is no such block; hence the successor is never out of
  flow when the current block has a non-negative readingOrder.  For an out-of-flow current
  block getNextBlock does compute a successor, the first block of readingOrder 0.
\<close>

theorem out_of_flow_exclusion:
  "getBlocksInReadingOrderRange blocks minOrder maxOrder
     = filter (\<lambda>b. minOrder \<le>s readingOrder b \<and> readingOrder b \<le>s maxOrder) blocks
   \<and> (0 \<le>s minOrder \<longrightarrow>
        list_all (\<lambda>b. readingOrder b \<noteq> - 1) (getBlocksInReadingOrderRange blocks minOrder maxOrder))
   \<and> getNextBlock blocks None = None
   \<and> ((\<exists>x\<in>set blocks. readingOrder x = readingOrder c + 1) \<longrightarrow>
        (\<exists>pre n post. blocks = pre @ n # post \<and> readingOrder n = readingOrder c + 1 \<and>
           (\<forall>x\<in>set pre. readingOrder x \<noteq> readingOrder c + 1) \<and>
           getNextBlock blocks (Some c) = Some n))
   \<and> (\<not> (\<exists>x\<in>set blocks. readingOrder x = readingOrder c + 1) \<longrightarrow>
        getNextBlock blocks (Some c) = None)
   \<and> (0 \<le>s readingOrder c \<and> getNextBlock blocks (Some c) = Some n \<longrightarrow> readingOrder n \<noteq> - 1)
   \<and> (readingOrder c = - 1 \<longrightarrow>
        getNextBlock blocks (Some c) = find (\<lambda>block. readingOrder block = 0) blocks)"
proof -
  have range: "getBlocksInReadingOrderRange blocks minOrder maxOrder
     = filter (\<lambda>b. minOrder \<le>s readingOrder b \<and> readingOrder b \<le>s maxOrder) blocks"
    by (rule getBlocksInReadingOrderRange_filter)
  have "0 \<le>s minOrder \<Longrightarrow> minOrder \<le>s x \<Longrightarrow> x \<noteq> - 1" for x :: int32
    by (auto simp: signed_cmp)
  then have inflow: "0 \<le>s minOrder \<longrightarrow>
        list_all (\<lambda>b. readingOrder b \<noteq> - 1) (getBlocksInReadingOrderRange blocks minOrder maxOrder)"
    unfolding range by (auto simp: list_all_iff)
  have null: "getNextBlock blocks None = None"
    by (simp add: getNextBlock_def)
  have found: "\<exists>pre n post. blocks = pre @ n # post \<and> readingOrder n = readingOrder c + 1 \<and>
           (\<forall>x\<in>set pre. readingOrder x \<noteq> readingOrder c + 1) \<and>
           getNextBlock blocks (Some c) = Some n"
    if "\<exists>x\<in>set blocks. readingOrder x = readingOrder c + 1"
    using find_first_split [of blocks "\<lambda>x. readingOrder x = readingOrder c + 1", OF that]
    by (simp add: getNextBlock_def)
  have absent: "getNextBlock blocks (Some c) = None"
    if "\<not> (\<exists>x\<in>set blocks. readingOrder x = readingOrder c + 1)"
    using that by (simp add: getNextBlock_def find_None_iff')
  have succ: "getNextBlock blocks (Some c) = Some n \<Longrightarrow> readingOrder n = readingOrder c + 1"
    by (auto simp: getNextBlock_def find_Some_iff)
  have "0 \<le>s x \<Longrightarrow> x + 1 \<noteq> - 1" for x :: int32
  proof
    assume nn: "0 \<le>s x" and "x + 1 = - 1"
    then have "x = - 2" by (simp add: eq_neg_iff_add_eq_0 add.commute)
    with nn show False by (simp add: signed_cmp)
  qed
  with succ have nonneg: "0 \<le>s readingOrder c \<and> getNextBlock blocks (Some c) = Some n \<longrightarrow>
      readingOrder n \<noteq> - 1"
    by auto
  have oof: "readingOrder c = - 1 \<longrightarrow>
        getNextBlock blocks (Some c) = find (\<lambda>block. readingOrder block = 0) blocks"
    by (simp add: getNextBlock_def)
  show ?thesis
  proof (intro conjI impI)
    show "getBlocksInReadingOrderRange blocks minOrder maxOrder
       = filter (\<lambda>b. minOrder \<le>s readingOrder b \<and> readingOrder b \<le>s maxOrder) blocks"
      by (rule range)
  next
    assume "0 \<le>s minOrder"
    with inflow show "list_all (\<lambda>b. readingOrder b \<noteq> - 1)
        (getBlocksInReadingOrderRange blocks minOrder maxOrder)" by simp
  next
    show "getNextBlock blocks None = None" by (rule null)
  next
    assume "\<exists>x\<in>set blocks. readingOrder x = readingOrder c + 1"
    then show "\<exists>pre n post. blocks = pre @ n # post \<and> readingOrder n = readingOrder c + 1 \<and>
           (\<forall>x\<in>set pre. readingOrder x \<noteq> readingOrder c + 1) \<and>
           getNextBlock blocks (Some c) = Some n" by (rule found)
  next
    assume "\<not> (\<exists>x\<in>set blocks. readingOrder x = readingOrder c + 1)"
    then show "getNextBlock blocks (Some c) = None" by (rule absent)
  next
    assume "0 \<le>s readingOrder c \<and> getNextBlock blocks (Some c) = Some n"
    with nonneg show "readingOrder n \<noteq> - 1" by simp
  next
    assume "readingOrder c = - 1"
    with oof show "getNextBlock blocks (Some c) = find (\<lambda>block. readingOrder block = 0) blocks"
      by simp
  qed
qed

text \<open>
  On the test page the range [0, 1] is the two columns, the right column is the successor
  of the left one, and the right column has no successor.
\<close>

theorem out_of_flow_exclusion_witness:
  "(0::int32) \<le>s 0
   \<and> getBlocksInReadingOrderRange pageBlocks 0 1
       = [Block ''left_col'' (Rect 0.05 0.1 0.45 0.9) 0, Block ''right_col'' (Rect 0.55 0.1 0.95 0.9) 1]
   \<and> list_all (\<lambda>b. readingOrder b \<noteq> - 1) (getBlocksInReadingOrderRange pageBlocks 0 1)
   \<and> (\<exists>x\<in>set pageBlocks. readingOrder x = readingOrder (Block ''left_col'' (Rect 0.05 0.1 0.45 0.9) 0) + 1)
   \<and> getNextBlock pageBlocks (Some (Block ''left_col'' (Rect 0.05 0.1 0.45 0.9) 0))
       = Some (Block ''right_col'' (Rect 0.55 0.1 0.95 0.9) 1)
   \<and> readingOrder (Block ''right_col'' (Rect 0.55 0.1 0.95 0.9) 1) \<noteq> - 1
   \<and> \<not> (\<exists>x\<in>set pageBlocks. readingOrder x = readingOrder (Block ''right_col'' (Rect 0.55 0.1 0.95 0.9) 1) + 1)
   \<and> getNextBlock pageBlocks (Some (Block ''right_col'' (Rect 0.55 0.1 0.95 0.9) 1)) = None"
proof -
  let ?l = "Block ''left_col'' (Rect 0.05 0.1 0.45 0.9) 0"
  let ?r = "Block ''right_col'' (Rect 0.55 0.1 0.95 0.9) 1"
  note T = out_of_flow_exclusion [of pageBlocks 0 1 ?l ?r]
  note U = out_of_flow_exclusion [of pageBlocks 0 1 ?r ?r]
  have z: "(0::int32) \<le>s 0" by (simp add: signed_cmp)
  have r: "getBlocksInReadingOrderRange pageBlocks 0 1 = [?l, ?r]"
    unfolding T [THEN conjunct1] by (simp add: pageBlocks_def signed_cmp)
  from T z have la: "list_all (\<lambda>b. readingOrder b \<noteq> - 1) (getBlocksInReadingOrderRange pageBlocks 0 1)"
    by blast
  have ex: "\<exists>x\<in>set pageBlocks. readingOrder x = readingOrder ?l + 1"
    by (simp add: pageBlocks_def)
  have n: "getNextBlock pageBlocks (Some ?l) = Some ?r"
    by (simp add: pageBlocks_def getNextBlock_def)
  have c: "0 \<le>s readingOrder ?l" by (simp add: signed_cmp)
  from T c n have ne: "readingOrder ?r \<noteq> - 1" by blast
  have nex: "\<not> (\<exists>x\<in>set pageBlocks. readingOrder x = readingOrder ?r + 1)"
    by (simp add: pageBlocks_def)
  from U nex have last: "getNextBlock pageBlocks (Some ?r) = None" by blast
  from z r la ex n ne nex last show ?thesis by blast
qed

text \<open>
  The out-of-flow header of the page has a successor, and a range that starts at -1
  contains it.
\<close>

theorem out_of_flow_exclusion_counterexample:
  "readingOrder (Block ''header'' (Rect 0.05 0.02 0.95 0.08) (- 1)) = - 1
   \<and> getNextBlock pageBlocks (Some (Block ''header'' (Rect 0.05 0.02 0.95 0.08) (- 1)))
       = Some (Block ''left_col'' (Rect 0.05 0.1 0.45 0.9) 0)
   \<and> Block ''header'' (Rect 0.05 0.02 0.95 0.08) (- 1)
       \<in> set (getBlocksInReadingOrderRange pageBlocks (- 1) 1)"
  by (simp add: pageBlocks_def getNextBlock_def signed_cmp)

section \<open>A sort that keeps the contract\<close>







section \<open>Groups of the assembler\<close>

text \<open>
  The map built by collectEntities has one entry for each key some matched fragment is
  filed under, in ascending order of the keys, and the entry holds the matched fragments
  filed under its key, in the order of the page.
\<close>

lemmas assembler_defs =
  extractTextInReadingOrder_def entityMatches_def area_intersects_def rect_intersects_def
  area_contains_def blockOrderOf_def containsRect_def containsPoint_def center_def
  rect_contains_def groupText_def entityLess_def groupKey_def Let_def
  insertion_sort_def linear_insert_def

lemma qmap_append_groups:
  assumes "sorted_wrt (<s) (map fst m)"
    and "\<forall>g\<in>set m. snd g = G (fst g)"
    and "k \<notin> fst ` set m \<longrightarrow> G k = []"
  shows "sorted_wrt (<s) (map fst (qmap_append k e m))
    \<and> fst ` set (qmap_append k e m) = insert k (fst ` set m)
    \<and> (\<forall>g\<in>set (qmap_append k e m). snd g = (if fst g = k then G k @ [e] else G (fst g)))"
  using assms
proof (induction m)
  case Nil
  then show ?case by simp
next
  case (Cons g m)
  obtain k' es where g: "g = (k', es)" by (cases g)
  from Cons.prems(1) g have tail_sorted: "sorted_wrt (<s) (map fst m)"
    and above: "\<forall>h\<in>set m. k' <s fst h" by auto
  show ?case
  proof (cases "k = k'")
    case True
    with above have "\<forall>h\<in>set m. fst h \<noteq> k" by (auto simp: signed_cmp)
    with True g Cons.prems show ?thesis by auto
  next
    case False
    show ?thesis
    proof (cases "k <s k'")
      case True
      with above have lt: "\<forall>h\<in>set m. k <s fst h" by (auto simp: signed_cmp)
      then have "k \<notin> fst ` set m" by (auto simp: signed_cmp)
      with False g have "k \<notin> fst ` set (g # m)" by auto
      with Cons.prems(3) have "G k = []" by blast
      moreover from lt False g have "\<forall>h\<in>set (g # m). fst h \<noteq> k" by (auto simp: signed_cmp)
      ultimately show ?thesis using True False g lt Cons.prems(1,2) by auto
    next
      case notlt: False
      with False have gt: "k' <s k" by (metis signed.neqE)
      have p3: "k \<notin> fst ` set m \<longrightarrow> G k = []" using Cons.prems(3) False g by auto
      have p2: "\<forall>h\<in>set m. snd h = G (fst h)" using Cons.prems(2) by simp
      from Cons.IH [OF tail_sorted p2 p3]
      have ih: "sorted_wrt (<s) (map fst (qmap_append k e m))"
        "fst ` set (qmap_append k e m) = insert k (fst ` set m)"
        "\<forall>h\<in>set (qmap_append k e m). snd h = (if fst h = k then G k @ [e] else G (fst h))"
        by blast+
      have step: "qmap_append k e (g # m) = g # qmap_append k e m"
        using False notlt g by simp
      have "\<forall>h\<in>set (qmap_append k e m). k' <s fst h"
      proof
        fix h assume "h \<in> set (qmap_append k e m)"
        then have "fst h \<in> insert k (fst ` set m)" using ih(2) by blast
        with gt above show "k' <s fst h" by auto
      qed
      then have s: "sorted_wrt (<s) (map fst (qmap_append k e (g # m)))"
        using ih(1) step g by simp
      have f: "fst ` set (qmap_append k e (g # m)) = insert k (fst ` set (g # m))"
        using ih(2) step by auto
      have e: "\<forall>h\<in>set (qmap_append k e (g # m)).
          snd h = (if fst h = k then G k @ [e] else G (fst h))"
        using ih(3) step g False Cons.prems(2) by auto
      from s f e show ?thesis by blast
    qed
  qed
qed

lemma collectEntities_groups_inv:
  assumes "sorted_wrt (<s) (map fst m)"
    and "\<forall>g\<in>set m. snd g = filter (\<lambda>w. entityMatches area u w \<and> groupKey blocks w = fst g) done"
    and "fst ` set m = groupKey blocks ` set (filter (entityMatches area u) done)"
  shows "sorted_wrt (<s) (map fst (collectEntities ws blocks area u m))
    \<and> (\<forall>g\<in>set (collectEntities ws blocks area u m).
          snd g = filter (\<lambda>w. entityMatches area u w \<and> groupKey blocks w = fst g) (done @ ws))
    \<and> fst ` set (collectEntities ws blocks area u m)
        = groupKey blocks ` set (filter (entityMatches area u) (done @ ws))"
  using assms
proof (induction ws arbitrary: m "done")
  case Nil
  then show ?case by simp
next
  case (Cons w ws)
  show ?case
  proof (cases "entityMatches area u w")
    case False
    have p2: "\<forall>g\<in>set m. snd g =
        filter (\<lambda>w. entityMatches area u w \<and> groupKey blocks w = fst g) (done @ [w])"
      using Cons.prems(2) False by simp
    have p3: "fst ` set m = groupKey blocks ` set (filter (entityMatches area u) (done @ [w]))"
      using Cons.prems(3) False by simp
    from Cons.IH [OF Cons.prems(1) p2 p3] False show ?thesis by simp
  next
    case True
    let ?k = "groupKey blocks w"
    let ?G = "\<lambda>k. filter (\<lambda>w. entityMatches area u w \<and> groupKey blocks w = k) done"
    have p3: "?k \<notin> fst ` set m \<longrightarrow> ?G ?k = []"
    proof
      assume nin: "?k \<notin> fst ` set m"
      have "\<not> (entityMatches area u x \<and> groupKey blocks x = ?k)" if "x \<in> set done" for x
      proof
        assume "entityMatches area u x \<and> groupKey blocks x = ?k"
        with that have "?k \<in> groupKey blocks ` set (filter (entityMatches area u) done)"
          by (intro image_eqI [of _ _ x]) simp_all
        with nin Cons.prems(3) show False by simp
      qed
      then show "?G ?k = []" by (simp add: filter_empty_conv)
    qed
    from qmap_append_groups [of m ?G ?k w, OF Cons.prems(1) Cons.prems(2) p3]
    have q: "sorted_wrt (<s) (map fst (qmap_append ?k w m))"
      "fst ` set (qmap_append ?k w m) = insert ?k (fst ` set m)"
      "\<forall>g\<in>set (qmap_append ?k w m). snd g = (if fst g = ?k then ?G ?k @ [w] else ?G (fst g))"
      by blast+
    have p2': "\<forall>g\<in>set (qmap_append ?k w m). snd g =
        filter (\<lambda>w. entityMatches area u w \<and> groupKey blocks w = fst g) (done @ [w])"
      using q(3) True by auto
    have p3': "fst ` set (qmap_append ?k w m)
        = groupKey blocks ` set (filter (entityMatches area u) (done @ [w]))"
      using q(2) Cons.prems(3) True by auto
    have step: "collectEntities (w # ws) blocks area u m
        = collectEntities ws blocks area u (qmap_append ?k w m)"
      using True by (simp add: groupKey_def Let_def)
    from Cons.IH [OF q(1) p2' p3'] step show ?thesis by simp
  qed
qed

lemma extractTextInReadingOrder_groups:
  "\<exists>ks. sorted_wrt (<s) ks
     \<and> set ks = groupKey blocks ` set (filter (entityMatches area u) words)
     \<and> extractTextInReadingOrder std_sort words blocks area u =
         concat (map (\<lambda>k. concat (map m_text (std_sort entityLess
           (filter (\<lambda>w. entityMatches area u w \<and> groupKey blocks w = k) words)))) ks)"
proof -
  let ?r = "collectEntities words blocks area u []"
  let ?F = "\<lambda>k. filter (\<lambda>w. entityMatches area u w \<and> groupKey blocks w = k) words"
  from collectEntities_groups_inv [of "[]" area u blocks "[]" words]
  have s: "sorted_wrt (<s) (map fst ?r)"
    and e: "\<forall>g\<in>set ?r. snd g = ?F (fst g)"
    and f: "fst ` set ?r = groupKey blocks ` set (filter (entityMatches area u) words)"
    by simp_all
  have "map (\<lambda>g. groupText (fst g, std_sort entityLess (snd g))) ?r
      = map (\<lambda>g. concat (map m_text (std_sort entityLess (?F (fst g))))) ?r"
  proof (rule map_cong [OF refl])
    fix g assume "g \<in> set ?r"
    with e have "snd g = ?F (fst g)" by blast
    then show "groupText (fst g, std_sort entityLess (snd g))
        = concat (map m_text (std_sort entityLess (?F (fst g))))"
      by (simp add: groupText_def)
  qed
  then have "concat (map groupText (map (\<lambda>g. (fst g, std_sort entityLess (snd g))) ?r))
      = concat (map (\<lambda>k. concat (map m_text (std_sort entityLess (?F k)))) (map fst ?r))"
    by (simp only: map_map comp_def)
  then have "extractTextInReadingOrder std_sort words blocks area u =
      concat (map (\<lambda>k. concat (map m_text (std_sort entityLess (?F k)))) (map fst ?r))"
    by (simp only: extractTextInReadingOrder_def Let_def)
  with s f show ?thesis by (intro exI [of _ "map fst ?r"]) simp
qed

lemma sorted_max_split:
  "sorted_wrt (<s) ks \<Longrightarrow> \<forall>k\<in>set ks. k \<le>s m \<Longrightarrow>
   ks = filter (\<lambda>k. k \<noteq> m) ks @ (if m \<in> set ks then [m] else [])"
proof (induction ks)
  case Nil
  then show ?case by simp
next
  case (Cons k ks)
  show ?case
  proof (cases "k = m")
    case True
    have "ks = []"
    proof (cases ks)
      case (Cons r rest)
      with Cons.prems True have "m <s r" "r \<le>s m" by auto
      then show ?thesis by (simp add: signed_cmp)
    qed simp
    with True show ?thesis by simp
  next
    case False
    with Cons show ?thesis by auto
  qed
qed

lemma groupKey_block:
  assumes "0 \<le>s k" and "k \<noteq> 999999"
  shows "groupKey blocks w = k \<longleftrightarrow>
    (\<exists>b. find (\<lambda>block. containsRect block (m_area w)) blocks = Some b \<and> readingOrder b = k)"
  using assms
  by (cases "find (\<lambda>block. containsRect block (m_area w)) blocks")
    (auto simp: groupKey_def blockOrderOf_def signed_cmp)

lemma groupKey_sentinel:
  assumes "\<forall>b\<in>set blocks. readingOrder b <s 999999"
  shows "groupKey blocks w = 999999 \<longleftrightarrow>
    (\<forall>b. find (\<lambda>block. containsRect block (m_area w)) blocks = Some b \<longrightarrow> \<not> 0 \<le>s readingOrder b)"
proof (cases "find (\<lambda>block. containsRect block (m_area w)) blocks")
  case None
  then show ?thesis by (simp add: groupKey_def blockOrderOf_def signed_cmp)
next
  case (Some b)
  then have "b \<in> set blocks" by (auto simp: find_Some_iff)
  with assms have "readingOrder b \<noteq> 999999" by (auto simp: signed_cmp)
  with Some show ?thesis by (simp add: groupKey_def blockOrderOf_def)
qed

lemma groupKey_le_sentinel:
  assumes "\<forall>b\<in>set blocks. readingOrder b <s 999999"
  shows "groupKey blocks w \<le>s 999999"
proof (cases "find (\<lambda>block. containsRect block (m_area w)) blocks")
  case None
  then show ?thesis by (simp add: groupKey_def blockOrderOf_def signed_cmp)
next
  case (Some b)
  then have "b \<in> set blocks" by (auto simp: find_Some_iff)
  with assms have "readingOrder b <s 999999" by blast
  with Some show ?thesis by (simp add: groupKey_def blockOrderOf_def signed_cmp)
qed

text \<open>
  C6, amended: a matched fragment is filed under the readingOrder of its owning block,
  the first block in registry order that contains its centre, when that readingOrder is
  not negative, and under the sentinel 999999 otherwise (no owning block, or one of
  negative readingOrder).  When every block has a readingOrder below 999999 the output
  is, for each non-negative readingOrder that owns a matched fragment, in ascending order,
  the text of the fragments of that readingOrder as std::sort leaves them, followed by the
  text of the fragments filed under the sentinel as std::sort leaves them.
\<close>

theorem sentinel_group_last:
  assumes low: "\<forall>b\<in>set blocks. readingOrder b <s 999999"
    and owner: "owner = (\<lambda>w. find (\<lambda>block. containsRect block (m_area w)) blocks)"
    and matched: "matched = filter (entityMatches area useIntersects) words"
    and ascending: "sorted_wrt (<s) ks"
    and keys: "set ks = {k. 0 \<le>s k \<and> (\<exists>w\<in>set matched. \<exists>b. owner w = Some b \<and> readingOrder b = k)}"
    and rest: "rest = filter (\<lambda>w. \<forall>b. owner w = Some b \<longrightarrow> \<not> 0 \<le>s readingOrder b) matched"
  shows "extractTextInReadingOrder std_sort words blocks area useIntersects =
      concat (map (\<lambda>k. concat (map m_text (std_sort entityLess
                (filter (\<lambda>w. \<exists>b. owner w = Some b \<and> readingOrder b = k) matched)))) ks)
      @ (if rest = [] then [] else concat (map m_text (std_sort entityLess rest)))"
proof -
  let ?m = "entityMatches area useIntersects"
  let ?T = "\<lambda>k. concat (map m_text (std_sort entityLess
        (filter (\<lambda>w. ?m w \<and> groupKey blocks w = k) words)))"
  from extractTextInReadingOrder_groups [of blocks area useIntersects words std_sort]
  obtain ka where ka_sorted: "sorted_wrt (<s) ka"
    and ka_set: "set ka = groupKey blocks ` set (filter ?m words)"
    and out: "extractTextInReadingOrder std_sort words blocks area useIntersects = concat (map ?T ka)"
    by blast
  have le: "\<forall>k\<in>set ka. k \<le>s 999999"
    unfolding ka_set using groupKey_le_sentinel [OF low] by auto
  note split = sorted_max_split [OF ka_sorted le]
  have low_sorted: "sorted_wrt (<s) (filter (\<lambda>k. k \<noteq> 999999) ka)"
    using ka_sorted by (rule sorted_wrt_filter)
  have low_set: "set (filter (\<lambda>k. k \<noteq> 999999) ka) = set ks"
  proof (intro set_eqI iffI)
    fix k assume "k \<in> set (filter (\<lambda>k. k \<noteq> 999999) ka)"
    then have "k \<in> groupKey blocks ` set (filter ?m words)" and "k \<noteq> 999999"
      using ka_set by simp_all
    then obtain w where w: "w \<in> set words" "?m w" "groupKey blocks w = k" "k \<noteq> 999999"
      by auto
    then have nn: "0 \<le>s k" by (auto simp: groupKey_def split: if_splits)
    with w groupKey_block [OF nn w(4), of blocks w] show "k \<in> set ks"
      unfolding keys matched owner by auto
  next
    fix k assume "k \<in> set ks"
    then obtain w b where nn: "0 \<le>s k" and w: "w \<in> set words" "?m w"
      and b: "find (\<lambda>block. containsRect block (m_area w)) blocks = Some b" "readingOrder b = k"
      unfolding keys matched owner by auto
    from b have "b \<in> set blocks" by (auto simp: find_Some_iff)
    with low b have ne: "k \<noteq> 999999" by (auto simp: signed_cmp)
    from groupKey_block [OF nn ne, of blocks w] b have "groupKey blocks w = k" by blast
    with w have "k \<in> groupKey blocks ` set (filter ?m words)" by auto
    with ne show "k \<in> set (filter (\<lambda>k. k \<noteq> 999999) ka)"
      using ka_set by simp
  qed
  have low_eq: "filter (\<lambda>k. k \<noteq> 999999) ka = ks"
    using signed.strict_sorted_equal [OF ascending low_sorted low_set] .
  have rest_eq: "rest = filter (\<lambda>w. ?m w \<and> groupKey blocks w = 999999) words"
    unfolding rest matched owner filter_filter
    by (rule filter_cong [OF refl]) (simp add: groupKey_sentinel [OF low])
  have sentinel_in: "999999 \<in> set ka \<longleftrightarrow> rest \<noteq> []"
    unfolding ka_set rest_eq by (auto simp: filter_empty_conv)
  have block_text: "map ?T ks = map (\<lambda>k. concat (map m_text (std_sort entityLess
                (filter (\<lambda>w. \<exists>b. owner w = Some b \<and> readingOrder b = k) matched)))) ks"
  proof (rule map_cong [OF refl])
    fix k assume "k \<in> set ks"
    then have nn: "0 \<le>s k" and ne: "k \<noteq> 999999"
      using low_set by (auto simp: keys)
    have "filter (\<lambda>w. ?m w \<and> groupKey blocks w = k) words
        = filter (\<lambda>w. \<exists>b. owner w = Some b \<and> readingOrder b = k) matched"
      unfolding matched owner filter_filter
      by (rule filter_cong [OF refl]) (simp add: groupKey_block [OF nn ne])
    then show "?T k = concat (map m_text (std_sort entityLess
                (filter (\<lambda>w. \<exists>b. owner w = Some b \<and> readingOrder b = k) matched)))"
      by simp
  qed
  have "concat (map ?T ka) = concat (map ?T ks) @ (if rest = [] then [] else ?T 999999)"
  proof -
    have "map ?T ka = map ?T (ks @ (if 999999 \<in> set ka then [999999] else []))"
      using split low_eq by simp
    then show ?thesis using sentinel_in by simp
  qed
  with out block_text rest_eq show ?thesis by simp
qed

text \<open>
  The blocks of testBlockReadingOrder, with the fragments listed against the reading
  order and one fragment outside every block: the output follows the reading order and
  ends with the outside fragment.
\<close>

theorem sentinel_group_last_witness:
  "list_all (\<lambda>b. readingOrder b <s 999999) orderBlocks
   \<and> sorted_wrt (<s) [0, 1, 2 :: int32]
   \<and> filter (entityMatches [Rect 0 0 1 1] True) orderWords = orderWords
   \<and> map (\<lambda>w. map_option readingOrder (find (\<lambda>block. containsRect block (m_area w)) orderBlocks))
        orderWords = [None, Some 2, Some 0, Some 1]
   \<and> extractTextInReadingOrder insertion_sort orderWords orderBlocks [Rect 0 0 1 1] True = ''ABCZ''"
proof -
  let ?owner = "\<lambda>w. find (\<lambda>block. containsRect block (m_area w)) orderBlocks"
  have low: "\<forall>b\<in>set orderBlocks. readingOrder b <s 999999"
    by (simp add: orderBlocks_def signed_cmp)
  have asc: "sorted_wrt (<s) [0, 1, 2 :: int32]" by (simp add: signed_cmp)
  have m: "filter (entityMatches [Rect 0 0 1 1] True) orderWords = orderWords"
    by (simp add: orderWords_def entityMatches_def area_intersects_def rect_intersects_def)
  have own: "map (\<lambda>w. map_option readingOrder (?owner w)) orderWords = [None, Some 2, Some 0, Some 1]"
    by (simp add: orderWords_def orderBlocks_def containsRect_def containsPoint_def center_def
        rect_contains_def)
  have keys: "set [0, 1, 2 :: int32] = {k. 0 \<le>s k \<and>
      (\<exists>w\<in>set (filter (entityMatches [Rect 0 0 1 1] True) orderWords).
         \<exists>b. ?owner w = Some b \<and> readingOrder b = k)}"
    unfolding m
    by (auto simp: orderWords_def orderBlocks_def containsRect_def containsPoint_def center_def
        rect_contains_def signed_cmp)
  note T = sentinel_group_last [where std_sort = insertion_sort, OF low refl refl asc keys refl]
  have "extractTextInReadingOrder insertion_sort orderWords orderBlocks [Rect 0 0 1 1] True = ''ABCZ''"
    unfolding T m
    by (simp add: orderWords_def orderBlocks_def containsRect_def containsPoint_def center_def
        rect_contains_def insertion_sort_def linear_insert_def signed_cmp)
  moreover from low have "list_all (\<lambda>b. readingOrder b <s 999999) orderBlocks"
    by (simp add: list_all_iff)
  ultimately show ?thesis using asc m own by blast
qed

text \<open>
  A block of readingOrder 1000000 comes after the sentinel group, and a fragment of an
  out-of-flow block is sorted within the sentinel group, behind a fragment outside every
  block that lies above it.
\<close>

theorem sentinel_group_last_counterexample:
  "find (\<lambda>block. containsRect block (Rect 0.1 0 0.2 0.1)) [Block ''far'' (Rect 0 0 0.5 1) 1000000]
      = Some (Block ''far'' (Rect 0 0 0.5 1) 1000000)
   \<and> find (\<lambda>block. containsRect block (Rect 0.6 0 0.8 0.1)) [Block ''far'' (Rect 0 0 0.5 1) 1000000]
      = None
   \<and> extractTextInReadingOrder insertion_sort
        [Entity ''Inside'' (Rect 0.1 0 0.2 0.1), Entity ''Outside'' (Rect 0.6 0 0.8 0.1)]
        [Block ''far'' (Rect 0 0 0.5 1) 1000000] [Rect 0 0 1 1] True = ''OutsideInside''
   \<and> find (\<lambda>block. containsRect block (Rect 0.1 0.03 0.9 0.07))
        [Block ''header'' (Rect 0.05 0.02 0.95 0.08) (- 1)]
      = Some (Block ''header'' (Rect 0.05 0.02 0.95 0.08) (- 1))
   \<and> find (\<lambda>block. containsRect block (Rect 0.1 0 0.9 0.01))
        [Block ''header'' (Rect 0.05 0.02 0.95 0.08) (- 1)]
      = None
   \<and> extractTextInReadingOrder insertion_sort
        [Entity ''Hdr'' (Rect 0.1 0.03 0.9 0.07), Entity ''Above'' (Rect 0.1 0 0.9 0.01)]
        [Block ''header'' (Rect 0.05 0.02 0.95 0.08) (- 1)] [Rect 0 0 1 1] True = ''AboveHdr''"
  by (simp add: assembler_defs signed_cmp)

section \<open>Cross-block selection\<close>








section \<open>Line precision\<close>







end
